theory Spec2Isabelle
  imports Main
begin

section \<open>Data model of the review-queue dashboard\<close>

text \<open>
  The dashboard is the Go package \<^verbatim>\<open>tui\<close>. Go strings are byte sequences, as
  \<^typ>\<open>string\<close> is here. Go's \<^verbatim>\<open>int\<close> is taken as 64 bits wide and modelled as
  \<^typ>\<open>int\<close>; the one increment the code does not guard, of the scroll offset, wraps
  around as the machine integer does. A pointer that may be nil is an
  \<^typ>\<open>'a option\<close>; the code never writes through a pointer, so values stand for the
  objects.
\<close>

type_synonym JobStatus = string

text \<open>Modelled from the spec: the four status constants of package \<^verbatim>\<open>storage\<close>,
  which the source only refers to by name.\<close>

definition JobStatusQueued :: JobStatus where
  "JobStatusQueued = ''queued''"

definition JobStatusRunning :: JobStatus where
  "JobStatusRunning = ''running''"

definition JobStatusDone :: JobStatus where
  "JobStatusDone = ''done''"

definition JobStatusFailed :: JobStatus where
  "JobStatusFailed = ''failed''"

text \<open>A point in time, as nanoseconds; only differences are ever formatted.\<close>

type_synonym time = int

text \<open>\<^verbatim>\<open>storage.ReviewJob\<close>, with the fields the dashboard reads.\<close>

record ReviewJob =
  ID :: int
  GitRef :: string
  RepoName :: string
  Agent :: string
  Status :: JobStatus
  StartedAt :: "time option"
  FinishedAt :: "time option"
  Error :: string

text \<open>\<^verbatim>\<open>storage.DaemonStatus\<close>.\<close>

record DaemonStatus =
  ActiveWorkers :: int
  MaxWorkers :: int
  QueuedJobs :: int
  RunningJobs :: int
  CompletedJobs :: int
  FailedJobs :: int

text \<open>\<^verbatim>\<open>storage.Review\<close>; its agent field is \<^verbatim>\<open>Agent\<close> in the source.\<close>

record Review =
  ReviewAgent :: string
  Output :: string
  Job :: "ReviewJob option"

datatype view = viewQueue | viewReview

record Model =
  serverAddr :: string
  jobs :: "ReviewJob list"
  status :: DaemonStatus
  selectedIdx :: int
  currentView :: view
  currentReview :: "Review option"
  reviewScroll :: int
  width :: int
  height :: int
  err :: "string option"

text \<open>The messages \<^verbatim>\<open>Update\<close> dispatches on. A key message carries the result of
  its \<^verbatim>\<open>String()\<close>; \<open>otherMsg\<close> is any message type the switch does not name.\<close>

datatype msg =
    KeyMsg string
  | WindowSizeMsg int int
  | tickMsg time
  | jobsMsg "ReviewJob list"
  | statusMsg DaemonStatus
  | reviewMsg "Review option"
  | errMsg string
  | otherMsg

text \<open>Commands are descriptions of asynchronous work; \<^verbatim>\<open>nil\<close> is \<^const>\<open>None\<close>.\<close>

datatype cmd =
    Quit
  | WindowSize
  | tick
  | fetchJobs
  | fetchStatus
  | fetchReview int
  | Batch "cmd list"

datatype panic = IndexOutOfRange | NilDereference | NegativeRepeatCount

definition zeroStatus :: DaemonStatus where
  "zeroStatus = \<lparr>ActiveWorkers = 0, MaxWorkers = 0, QueuedJobs = 0, RunningJobs = 0,
     CompletedJobs = 0, FailedJobs = 0\<rparr>"

definition NewModel :: "string \<Rightarrow> Model" where
  "NewModel addr = \<lparr>serverAddr = addr, jobs = [], status = zeroStatus, selectedIdx = 0,
     currentView = viewQueue, currentReview = None, reviewScroll = 0,
     width = 80, height = 24, err = None\<rparr>"

definition Init :: "Model \<Rightarrow> cmd" where
  "Init m = Batch [WindowSize, tick, fetchJobs, fetchStatus]"

text \<open>Indexing a slice panics outside \<open>[0, len)\<close>.\<close>

definition index :: "'a list \<Rightarrow> int \<Rightarrow> panic + 'a" where
  "index xs i = (if 0 \<le> i \<and> i < int (length xs) then Inr (xs ! nat i)
                 else Inl IndexOutOfRange)"

section \<open>The reducer\<close>

text \<open>The value a 64-bit signed integer holds after an arithmetic result \<open>x\<close>.\<close>

definition wrapInt :: "int \<Rightarrow> int" where
  "wrapInt x = (x + 2 ^ 63) mod 2 ^ 64 - 2 ^ 63"

definition backToQueue :: "Model \<Rightarrow> Model" where
  "backToQueue m = m\<lparr>currentView := viewQueue, currentReview := None, reviewScroll := 0\<rparr>"

definition keyUp :: "Model \<Rightarrow> Model" where
  "keyUp m =
     (if currentView m = viewQueue then
        (if selectedIdx m > 0 then m\<lparr>selectedIdx := selectedIdx m - 1\<rparr> else m)
      else
        (if reviewScroll m > 0 then m\<lparr>reviewScroll := reviewScroll m - 1\<rparr> else m))"

definition keyDown :: "Model \<Rightarrow> Model" where
  "keyDown m =
     (if currentView m = viewQueue then
        (if selectedIdx m < int (length (jobs m)) - 1
         then m\<lparr>selectedIdx := selectedIdx m + 1\<rparr> else m)
      else m\<lparr>reviewScroll := wrapInt (reviewScroll m + 1)\<rparr>)"

definition failedReview :: "ReviewJob \<Rightarrow> Review" where
  "failedReview job = \<lparr>ReviewAgent = Agent job,
     Output = ''Job failed:'' @ [CHR 10, CHR 10] @ Error job,
     Job = Some job\<rparr>"

definition keyEnter :: "Model \<Rightarrow> panic + (Model \<times> cmd option)" where
  "keyEnter m =
     (if currentView m = viewQueue \<and> length (jobs m) > 0 then
        (case index (jobs m) (selectedIdx m) of
           Inl p \<Rightarrow> Inl p
         | Inr job \<Rightarrow>
             if Status job = JobStatusDone then Inr (m, Some (fetchReview (ID job)))
             else if Status job = JobStatusFailed then
               Inr (m\<lparr>currentReview := Some (failedReview job),
                       currentView := viewReview, reviewScroll := 0\<rparr>, None)
             else Inr (m, None))
      else Inr (m, None))"

definition keyEsc :: "Model \<Rightarrow> Model" where
  "keyEsc m = (if currentView m = viewReview then backToQueue m else m)"

definition updateKey :: "Model \<Rightarrow> string \<Rightarrow> panic + (Model \<times> cmd option)" where
  "updateKey m k =
     (if k = ''ctrl+c'' \<or> k = ''q'' then
        (if currentView m = viewReview then Inr (backToQueue m, None)
         else Inr (m, Some Quit))
      else if k = ''up'' \<or> k = ''k'' then Inr (keyUp m, None)
      else if k = ''down'' \<or> k = ''j'' then Inr (keyDown m, None)
      else if k = ''enter'' then keyEnter m
      else if k = ''esc'' then Inr (keyEsc m, None)
      else Inr (m, None))"

fun Update :: "Model \<Rightarrow> msg \<Rightarrow> panic + (Model \<times> cmd option)" where
  "Update m (KeyMsg k) = updateKey m k"
| "Update m (WindowSizeMsg w h) = Inr (m\<lparr>width := w, height := h\<rparr>, None)"
| "Update m (tickMsg t) = Inr (m, Some (Batch [tick, fetchJobs, fetchStatus]))"
| "Update m (jobsMsg js) =
     Inr (let m1 = m\<lparr>jobs := js\<rparr> in
          if selectedIdx m1 \<ge> int (length (jobs m1))
          then m1\<lparr>selectedIdx := max 0 (int (length (jobs m1)) - 1)\<rparr> else m1, None)"
| "Update m (statusMsg s) = Inr (m\<lparr>status := s\<rparr>, None)"
| "Update m (reviewMsg r) =
     Inr (m\<lparr>currentReview := r, currentView := viewReview, reviewScroll := 0\<rparr>, None)"
| "Update m (errMsg e) = Inr (m\<lparr>err := Some e\<rparr>, None)"
| "Update m otherMsg = Inr (m, None)"

text \<open>Processing a sequence of messages in order; a panic ends the program.\<close>

fun runUpdates :: "Model \<Rightarrow> msg list \<Rightarrow> panic + Model" where
  "runUpdates m [] = Inr m"
| "runUpdates m (e # es) =
     (case Update m e of Inl p \<Rightarrow> Inl p | Inr (m', c) \<Rightarrow> runUpdates m' es)"

text \<open>The states the program can be in: those \<^const>\<open>Update\<close> produces from the
  initial model without panicking.\<close>

inductive reachable :: "Model \<Rightarrow> bool" where
  start: "reachable (NewModel addr)"
| step: "reachable m \<Longrightarrow> Update m e = Inr (m', c) \<Longrightarrow> reachable m'"

text \<open>The selection invariant of the job list.\<close>

definition selectionOk :: "Model \<Rightarrow> bool" where
  "selectionOk m =
     (if jobs m = [] then selectedIdx m = 0
      else 0 \<le> selectedIdx m \<and> selectedIdx m \<le> int (length (jobs m)) - 1)"

section \<open>The text wrapper\<close>

text \<open>\<^verbatim>\<open>strings.Split(text, "\n")\<close>: one more piece than there are separators.\<close>

fun splitOn :: "char \<Rightarrow> string \<Rightarrow> string list" where
  "splitOn sep [] = [[]]"
| "splitOn sep (c # cs) =
     (if c = sep then [] # splitOn sep cs
      else (let r = splitOn sep cs in (c # hd r) # tl r))"

text \<open>\<^verbatim>\<open>strings.TrimLeft(s, " ")\<close>.\<close>

definition TrimLeft :: "string \<Rightarrow> string" where
  "TrimLeft s = dropWhile (\<lambda>c. c = CHR '' '') s"

text \<open>The search loop \<^verbatim>\<open>for i := width; i > width/2; i--\<close>: the index of the first
  space found going down from the width \<open>w\<close>, or \<open>w\<close> when the loop ends without one.\<close>

function findBreak :: "string \<Rightarrow> int \<Rightarrow> int \<Rightarrow> int" where
  "findBreak line w i =
     (if i > w div 2 then
        (if i < int (length line) \<and> line ! nat i = CHR '' '' then i
         else findBreak line w (i - 1))
      else w)"
  by pat_completeness auto
termination
  by (relation "measure (\<lambda>(line, w, i). nat (i - w div 2))") auto

text \<open>The loop \<^verbatim>\<open>for len(line) > width\<close> with the final append. \<^verbatim>\<open>wrapText\<close> enters it
  with a positive width only (it replaces any other width by 100 first); the guard
  \<open>0 < w\<close> states that precondition, under which every round shortens the line.\<close>

function wrapLoop :: "string \<Rightarrow> int \<Rightarrow> string list" where
  "wrapLoop line w =
     (if int (length line) > w \<and> 0 < w then
        (let breakPoint = findBreak line w w in
           take (nat breakPoint) line
             # wrapLoop (TrimLeft (drop (nat breakPoint) line)) w)
      else if length line > 0 then [line] else [])"
  by pat_completeness auto
termination
proof (relation "measure (\<lambda>(line, w). length line)")
  show "wf (measure (\<lambda>(line, w). length line))"
    by simp
next
  fix line :: string and w breakPoint :: int
  assume long: "w < int (length line) \<and> 0 < w"
    and bp: "breakPoint = findBreak line w w"
  have "\<And>i. 0 < w \<Longrightarrow> i \<le> w \<Longrightarrow> 0 < findBreak line w i"
  proof -
    fix i :: int
    show "0 < w \<Longrightarrow> i \<le> w \<Longrightarrow> 0 < findBreak line w i"
    proof (induction line w i rule: findBreak.induct)
      case (1 line w i)
      have half: "0 \<le> w div 2"
        using "1.prems" by simp
      show ?case
      proof (cases "i > w div 2")
        case True
        then show ?thesis
          using "1.IH" "1.prems" half by (subst findBreak.simps) auto
      next
        case False
        then show ?thesis
          using "1.prems" by (subst findBreak.simps) simp
      qed
    qed
  qed
  then have "0 < breakPoint"
    using long bp by simp
  then have "length (drop (nat breakPoint) line) < length line"
    using long by (simp add: length_drop) linarith
  moreover have "length (TrimLeft (drop (nat breakPoint) line))
      \<le> length (drop (nat breakPoint) line)"
    unfolding TrimLeft_def by (rule length_dropWhile_le)
  ultimately show "((TrimLeft (drop (nat breakPoint) line), w), (line, w))
      \<in> measure (\<lambda>(line, w). length line)"
    by simp
qed

text \<open>Both loops are unfolded one round at a time, on request.\<close>

declare findBreak.simps [simp del]

declare wrapLoop.simps [simp del]

definition wrapLine :: "string \<Rightarrow> int \<Rightarrow> string list" where
  "wrapLine line w =
     (if int (length line) \<le> w then [line] else wrapLoop line w)"

definition wrapText :: "string \<Rightarrow> int \<Rightarrow> string list" where
  "wrapText text w0 =
     (let w = (if w0 \<le> 0 then 100 else w0)
      in concat (map (\<lambda>line. wrapLine line w) (splitOn (CHR 10) text)))"

section \<open>The renderer\<close>

datatype style =
    titleStyle
  | statusStyle
  | selectedStyle
  | queuedStyle
  | runningStyle
  | doneStyle
  | failedStyle
  | helpStyle

text \<open>What rendering takes from outside the package: \<^verbatim>\<open>lipgloss.Style.Render\<close>, the
  rune count \<^verbatim>\<open>fmt\<close> pads by, the clock, and the text of a duration rounded to the
  second (\<^verbatim>\<open>d.Round(time.Second).String()\<close>).\<close>

record lib =
  Render :: "style \<Rightarrow> string \<Rightarrow> string"
  RuneCountInString :: "string \<Rightarrow> nat"
  Now :: time
  DurationString :: "int \<Rightarrow> string"

definition nl :: string where
  "nl = [CHR 10]"

definition digitChar :: "nat \<Rightarrow> char" where
  "digitChar d = ''0123456789'' ! d"

fun digits :: "nat \<Rightarrow> string" where
  "digits n = (if n < 10 then [digitChar n] else digits (n div 10) @ [digitChar (n mod 10)])"

declare digits.simps [simp del]

text \<open>The verb \<^verbatim>\<open>%d\<close>.\<close>

definition fmtInt :: "int \<Rightarrow> string" where
  "fmtInt i = (if i < 0 then CHR ''-'' # digits (nat (- i)) else digits (nat i))"

definition padRight :: "nat \<Rightarrow> nat \<Rightarrow> string \<Rightarrow> string" where
  "padRight n cnt s = s @ replicate (n - cnt) (CHR '' '')"

text \<open>The verbs \<^verbatim>\<open>%-ns\<close> and \<^verbatim>\<open>%-nd\<close>.\<close>

definition fmtStrLeft :: "lib \<Rightarrow> nat \<Rightarrow> string \<Rightarrow> string" where
  "fmtStrLeft L n s = padRight n (RuneCountInString L s) s"

definition fmtIntLeft :: "nat \<Rightarrow> int \<Rightarrow> string" where
  "fmtIntLeft n i = padRight n (length (fmtInt i)) (fmtInt i)"

text \<open>\<^verbatim>\<open>strings.Repeat\<close> panics on a negative count.\<close>

definition Repeat :: "string \<Rightarrow> int \<Rightarrow> panic + string" where
  "Repeat s count =
     (if count < 0 then Inl NegativeRepeatCount else Inr (concat (replicate (nat count) s)))"

definition elapsedOf :: "lib \<Rightarrow> ReviewJob \<Rightarrow> string" where
  "elapsedOf L job =
     (case StartedAt job of
        None \<Rightarrow> []
      | Some started \<Rightarrow>
          (case FinishedAt job of
             Some finished \<Rightarrow> DurationString L (finished - started)
           | None \<Rightarrow> DurationString L (Now L - started)))"

definition styledStatusOf :: "lib \<Rightarrow> JobStatus \<Rightarrow> string" where
  "styledStatusOf L st =
     (let styled =
        (if st = JobStatusQueued then Render L queuedStyle st
         else if st = JobStatusRunning then Render L runningStyle st
         else if st = JobStatusDone then Render L doneStyle st
         else if st = JobStatusFailed then Render L failedStyle st
         else st);
        padding = 8 - int (length st)
      in if padding > 0 then styled @ replicate (nat padding) (CHR '' '') else styled)"

definition renderJobLine :: "lib \<Rightarrow> ReviewJob \<Rightarrow> string" where
  "renderJobLine L job =
     (let ref = (if length (GitRef job) > 17 then take 17 (GitRef job) else GitRef job);
          repo = (if length (RepoName job) > 15 then take 12 (RepoName job) @ ''...''
                  else RepoName job);
          agent = (if length (Agent job) > 12 then take 12 (Agent job) else Agent job)
      in fmtIntLeft 4 (ID job) @ '' '' @ fmtStrLeft L 17 ref @ '' '' @ fmtStrLeft L 15 repo
           @ '' '' @ fmtStrLeft L 12 agent @ '' '' @ styledStatusOf L (Status job)
           @ '' '' @ elapsedOf L job)"

text \<open>The list windower inside \<^verbatim>\<open>renderQueueView\<close>: the viewport capacity from the
  terminal height, and the window \<open>[start, end)\<close> of \<open>n\<close> jobs around the selection.
  The capacity is at least 3, where Go's truncating \<^verbatim>\<open>/\<close> is \<open>div\<close>.\<close>

definition visibleJobsOf :: "int \<Rightarrow> int" where
  "visibleJobsOf h =
     (let reservedLines = 9; visibleJobs = h - reservedLines
      in if visibleJobs < 3 then 3 else visibleJobs)"

definition jobWindow :: "int \<Rightarrow> int \<Rightarrow> int \<Rightarrow> int \<times> int" where
  "jobWindow n visibleJobs sel =
     (if n > visibleJobs then
        (let start0 = sel - visibleJobs div 2;
             start1 = (if start0 < 0 then 0 else start0);
             end1 = start1 + visibleJobs
         in if end1 > n then (n - visibleJobs, n) else (start1, end1))
      else (0, n))"

definition queueScrollInfo :: "int \<Rightarrow> int \<Rightarrow> int \<Rightarrow> string" where
  "queueScrollInfo startIdx endIdx n =
     ''[showing '' @ fmtInt (startIdx + 1) @ ''-'' @ fmtInt endIdx @ '' of '' @ fmtInt n @ '']''"

fun renderRows :: "lib \<Rightarrow> Model \<Rightarrow> int list \<Rightarrow> panic + string" where
  "renderRows L m [] = Inr []"
| "renderRows L m (i # rest) =
     (case index (jobs m) i of
        Inl p \<Rightarrow> Inl p
      | Inr job \<Rightarrow>
          (let line = renderJobLine L job;
               row = (if i = selectedIdx m then Render L selectedStyle (''> '' @ line)
                      else ''  '' @ line)
           in case renderRows L m rest of
                Inl p \<Rightarrow> Inl p
              | Inr below \<Rightarrow> Inr (row @ nl @ below)))"

definition queueStatusLine :: "Model \<Rightarrow> string" where
  "queueStatusLine m =
     ''Workers: '' @ fmtInt (ActiveWorkers (status m)) @ ''/'' @ fmtInt (MaxWorkers (status m))
       @ '' | Queued: '' @ fmtInt (QueuedJobs (status m))
       @ '' | Running: '' @ fmtInt (RunningJobs (status m))
       @ '' | Done: '' @ fmtInt (CompletedJobs (status m))
       @ '' | Failed: '' @ fmtInt (FailedJobs (status m))
       @ '' | Size: '' @ fmtInt (width m) @ ''x'' @ fmtInt (height m)"

definition queueHeader :: "lib \<Rightarrow> string" where
  "queueHeader L =
     ''  '' @ fmtStrLeft L 4 ''ID'' @ '' '' @ fmtStrLeft L 17 ''Ref'' @ '' ''
       @ fmtStrLeft L 15 ''Repo'' @ '' '' @ fmtStrLeft L 12 ''Agent'' @ '' ''
       @ fmtStrLeft L 8 ''Status'' @ '' '' @ ''Time''"

definition renderQueueView :: "lib \<Rightarrow> Model \<Rightarrow> panic + string" where
  "renderQueueView L m =
     (let top = Render L titleStyle ''RoboRev Queue'' @ nl
                  @ Render L statusStyle (queueStatusLine m) @ nl @ nl;
          help = Render L helpStyle ''up/down: navigate | enter: view review | q: quit''
      in if length (jobs m) = 0 then Inr (top @ ''No jobs in queue'' @ nl @ help)
         else
           (case Repeat ''-'' (min (width m - 4) 78) of
              Inl p \<Rightarrow> Inl p
            | Inr dashes \<Rightarrow>
                (let n = int (length (jobs m));
                     visibleJobs = visibleJobsOf (height m);
                     startIdx = fst (jobWindow n visibleJobs (selectedIdx m));
                     endIdx = snd (jobWindow n visibleJobs (selectedIdx m))
                 in case renderRows L m [startIdx..endIdx - 1] of
                      Inl p \<Rightarrow> Inl p
                    | Inr rows \<Rightarrow>
                        Inr (top @ Render L statusStyle (queueHeader L) @ nl
                               @ ''  '' @ dashes @ nl @ rows
                               @ (if n > visibleJobs
                                  then Render L statusStyle (queueScrollInfo startIdx endIdx n) @ nl
                                  else [])
                               @ help))))"

text \<open>The first line the Review screen shows: the stored scroll offset, clamped against
  the number of wrapped lines.\<close>

definition scrollStart :: "int \<Rightarrow> int \<Rightarrow> int" where
  "scrollStart scroll n = (if scroll \<ge> n then max 0 (n - 1) else scroll)"

fun writeLines :: "string list \<Rightarrow> int list \<Rightarrow> panic + string" where
  "writeLines lines [] = Inr []"
| "writeLines lines (i # rest) =
     (case index lines i of
        Inl p \<Rightarrow> Inl p
      | Inr l \<Rightarrow>
          (case writeLines lines rest of
             Inl p \<Rightarrow> Inl p
           | Inr below \<Rightarrow> Inr (l @ nl @ below)))"

definition reviewTitle :: "lib \<Rightarrow> Review \<Rightarrow> string" where
  "reviewTitle L review =
     (case Job review of
        Some job \<Rightarrow>
          (let ref = (if length (GitRef job) > 17 then take 17 (GitRef job) else GitRef job)
           in Render L titleStyle (''Review: '' @ ref @ '' ('' @ ReviewAgent review @ '')''))
      | None \<Rightarrow> Render L titleStyle ''Review'')"

definition reviewScrollInfo :: "int \<Rightarrow> int \<Rightarrow> int \<Rightarrow> string" where
  "reviewScrollInfo startIdx endIdx n =
     ''['' @ fmtInt (startIdx + 1) @ ''-'' @ fmtInt endIdx @ '' of '' @ fmtInt n @ '' lines]''"

definition renderReviewView :: "lib \<Rightarrow> Model \<Rightarrow> panic + string" where
  "renderReviewView L m =
     (case currentReview m of
        None \<Rightarrow> Inl NilDereference
      | Some review \<Rightarrow>
          (let wrapWidth = min (width m - 2) 100;
               lines = wrapText (Output review) wrapWidth;
               n = int (length lines);
               visibleLines = height m - 5;
               startIdx = scrollStart (reviewScroll m) n;
               endIdx = min (startIdx + visibleLines) n
           in case writeLines lines [startIdx..endIdx - 1] of
                Inl p \<Rightarrow> Inl p
              | Inr body \<Rightarrow>
                  Inr (reviewTitle L review @ nl @ body
                         @ (if n > visibleLines
                            then Render L statusStyle (reviewScrollInfo startIdx endIdx n) @ nl
                            else [])
                         @ Render L helpStyle ''up/down: scroll | esc/q: back'')))"

definition View :: "lib \<Rightarrow> Model \<Rightarrow> panic + string" where
  "View L m =
     (if currentView m = viewReview \<and> currentReview m \<noteq> None then renderReviewView L m
      else renderQueueView L m)"

section \<open>Rejoining display lines, and example inputs\<close>


definition failedJob7 :: ReviewJob where
  "failedJob7 = \<lparr>ID = 7, GitRef = [], RepoName = [], Agent = [], Status = ''failed'',
     StartedAt = None, FinishedAt = None, Error = ''panic: nil pointer''\<rparr>"

definition queueWithFailedJob :: Model where
  "queueWithFailedJob = (NewModel [])\<lparr>jobs := [failedJob7]\<rparr>"

definition threeJobs :: Model where
  "threeJobs = (NewModel [])\<lparr>jobs := [failedJob7, failedJob7, failedJob7], selectedIdx := 2\<rparr>"

definition shortReview :: Review where
  "shortReview = \<lparr>ReviewAgent = ''codex'', Output = ''ok'', Job = None\<rparr>"

definition overscrolled :: Model where
  "overscrolled = (NewModel [])\<lparr>currentReview := Some shortReview,
     currentView := viewReview, reviewScroll := 1\<rparr>"

text \<open>A library that renders without styling and counts bytes.\<close>

definition plainLib :: lib where
  "plainLib = \<lparr>Render = (\<lambda>s x. x), RuneCountInString = length, Now = 0,
     DurationString = (\<lambda>d. fmtInt (d div 1000000000) @ ''s'')\<rparr>"

text \<open>A state in the Review view that holds no Review.\<close>

definition reviewWithoutPayload :: Model where
  "reviewWithoutPayload = (NewModel [])\<lparr>currentView := viewReview\<rparr>"

definition fourJobs :: Model where
  "fourJobs = (NewModel [])\<lparr>jobs := [failedJob7, failedJob7, failedJob7, failedJob7],
     selectedIdx := 2, height := 12\<rparr>"

section \<open>The reducer: selection, failure isolation, review transitions\<close>

lemma index_in_range: "0 \<le> i \<Longrightarrow> i < int (length xs) \<Longrightarrow> index xs i = Inr (xs ! nat i)"
  by (simp add: index_def)

lemma updateKey_total_selection:
  assumes "selectionOk m"
  shows "\<exists>m' c. updateKey m k = Inr (m', c) \<and> selectionOk m'"
proof -
  have enter: "\<exists>m' c. keyEnter m = Inr (m', c) \<and> selectionOk m'"
  proof (cases "currentView m = viewQueue \<and> length (jobs m) > 0")
    case True
    then have "index (jobs m) (selectedIdx m) = Inr (jobs m ! nat (selectedIdx m))"
      using assms by (intro index_in_range) (auto simp: selectionOk_def)
    then show ?thesis
      using True assms by (auto simp: keyEnter_def selectionOk_def)
  next
    case False
    then show ?thesis
      using assms by (auto simp: keyEnter_def)
  qed
  have up: "selectionOk (keyUp m)"
    using assms by (auto simp: keyUp_def selectionOk_def)
  have down: "selectionOk (keyDown m)"
    using assms by (auto simp: keyDown_def selectionOk_def)
  have toQueue: "selectionOk (backToQueue m)"
    using assms by (auto simp: backToQueue_def selectionOk_def)
  have esc: "selectionOk (keyEsc m)"
    using assms toQueue by (auto simp: keyEsc_def)
  show ?thesis
    unfolding updateKey_def using enter up down toQueue esc assms by auto
qed

lemma Update_total_selection:
  assumes "selectionOk m"
  shows "\<exists>m' c. Update m e = Inr (m', c) \<and> selectionOk m'"
proof (cases e)
  case (KeyMsg k)
  then show ?thesis using updateKey_total_selection [OF assms] by simp
next
  case (jobsMsg js)
  then show ?thesis using assms by (auto simp: selectionOk_def Let_def split: if_splits)
qed (use assms in \<open>auto simp: selectionOk_def\<close>)

lemma reachable_selectionOk: "reachable m \<Longrightarrow> selectionOk m"
proof (induction rule: reachable.induct)
  case (start addr)
  then show ?case by (simp add: selectionOk_def NewModel_def)
next
  case (step m e m' c)
  then show ?case using Update_total_selection [of m e] by auto
qed

text \<open>Claim C3. From a state in which the selected index is within the job list (0 when
  the list is empty), every message is processed without a panic and leaves the selected
  index within the list; every reachable state is such a state. When a jobs message
  shrinks the list while the last job is selected, the selection becomes
  \<open>max 0 (k' - 1)\<close> for the new length \<open>k'\<close>.\<close>

theorem Update_preserves_selection:
  "(selectionOk m \<longrightarrow> (\<exists>m' c. Update m e = Inr (m', c) \<and> selectionOk m'))
   \<and> (reachable m \<longrightarrow> selectionOk m)
   \<and> (length js < length (jobs m) \<and> selectedIdx m = int (length (jobs m)) - 1 \<longrightarrow>
        (\<exists>m'. Update m (jobsMsg js) = Inr (m', None) \<and> jobs m' = js
           \<and> selectedIdx m' = max 0 (int (length js) - 1)))"
proof (intro conjI impI)
  assume "selectionOk m"
  then show "\<exists>m' c. Update m e = Inr (m', c) \<and> selectionOk m'"
    by (rule Update_total_selection)
next
  assume "reachable m"
  then show "selectionOk m" by (rule reachable_selectionOk)
next
  assume "length js < length (jobs m) \<and> selectedIdx m = int (length (jobs m)) - 1"
  then show "\<exists>m'. Update m (jobsMsg js) = Inr (m', None) \<and> jobs m' = js
           \<and> selectedIdx m' = max 0 (int (length js) - 1)"
    by (auto simp: Let_def)
qed

theorem Update_preserves_selection_witness:
  "selectionOk threeJobs
   \<and> length [failedJob7] < length (jobs threeJobs)
   \<and> selectedIdx threeJobs = int (length (jobs threeJobs)) - 1
   \<and> (\<exists>m'. Update threeJobs (jobsMsg [failedJob7]) = Inr (m', None) \<and> selectionOk m'
         \<and> jobs m' = [failedJob7] \<and> selectedIdx m' = 0)"
  using Update_preserves_selection [of threeJobs "jobsMsg [failedJob7]" "[failedJob7]"]
  by (simp add: threeJobs_def selectionOk_def NewModel_def)

text \<open>Claim C4. In the Queue view with the selection on a job of the list, enter on a
  job whose status is \<open>failed\<close> moves to the Review view holding a Review built from the
  job (output \<open>Job failed:\<close>, an empty line, then the job's error text), with scroll
  offset 0 and no command; on a job that is neither \<open>done\<close> nor \<open>failed\<close> enter changes
  nothing and issues no command.\<close>

theorem enter_on_failed_job:
  assumes "currentView m = viewQueue"
    and "0 \<le> selectedIdx m" and "selectedIdx m < int (length (jobs m))"
    and "job = jobs m ! nat (selectedIdx m)"
  shows "(Status job = JobStatusFailed \<longrightarrow>
            Update m (KeyMsg ''enter'') =
              Inr (m\<lparr>currentReview := Some \<lparr>ReviewAgent = Agent job,
                        Output = ''Job failed:'' @ [CHR 10, CHR 10] @ Error job,
                        Job = Some job\<rparr>,
                      currentView := viewReview, reviewScroll := 0\<rparr>, None))
       \<and> (Status job \<noteq> JobStatusDone \<and> Status job \<noteq> JobStatusFailed \<longrightarrow>
            Update m (KeyMsg ''enter'') = Inr (m, None))"
proof -
  have "index (jobs m) (selectedIdx m) = Inr job"
    using assms by (simp add: index_def)
  moreover have "length (jobs m) > 0"
    using assms by auto
  ultimately show ?thesis
    using assms(1)
    by (simp add: updateKey_def keyEnter_def failedReview_def JobStatusDone_def JobStatusFailed_def)
qed

theorem enter_on_failed_job_witness:
  "currentView queueWithFailedJob = viewQueue
   \<and> 0 \<le> selectedIdx queueWithFailedJob
   \<and> selectedIdx queueWithFailedJob < int (length (jobs queueWithFailedJob))
   \<and> Status failedJob7 = JobStatusFailed
   \<and> Update queueWithFailedJob (KeyMsg ''enter'') =
       Inr (queueWithFailedJob\<lparr>currentReview := Some \<lparr>ReviewAgent = [],
              Output = ''Job failed:'' @ [CHR 10, CHR 10] @ ''panic: nil pointer'',
              Job = Some failedJob7\<rparr>,
            currentView := viewReview, reviewScroll := 0\<rparr>, None)
   \<and> Status (failedJob7\<lparr>Status := ''running''\<rparr>) \<noteq> JobStatusDone
   \<and> Status (failedJob7\<lparr>Status := ''running''\<rparr>) \<noteq> JobStatusFailed
   \<and> Update (queueWithFailedJob\<lparr>jobs := [failedJob7\<lparr>Status := ''running''\<rparr>]\<rparr>) (KeyMsg ''enter'')
       = Inr (queueWithFailedJob\<lparr>jobs := [failedJob7\<lparr>Status := ''running''\<rparr>]\<rparr>, None)"
  using enter_on_failed_job [of queueWithFailedJob failedJob7]
    enter_on_failed_job [of "queueWithFailedJob\<lparr>jobs := [failedJob7\<lparr>Status := ''running''\<rparr>]\<rparr>"
      "failedJob7\<lparr>Status := ''running''\<rparr>"]
  by (simp add: queueWithFailedJob_def failedJob7_def NewModel_def JobStatusFailed_def JobStatusDone_def)

text \<open>Claim C8. An error message is processed by storing the error, replacing any
  earlier one; the job list, the daemon status, the active view, the held Review, the
  selected index, the scroll offset and the terminal dimensions stay as they were, and
  no command is issued.\<close>

theorem fetch_failure_only_sets_err:
  "Update m (errMsg e) = Inr (m\<lparr>err := Some e\<rparr>, None)
   \<and> err (m\<lparr>err := Some e\<rparr>) = Some e
   \<and> jobs (m\<lparr>err := Some e\<rparr>) = jobs m
   \<and> status (m\<lparr>err := Some e\<rparr>) = status m
   \<and> currentView (m\<lparr>err := Some e\<rparr>) = currentView m
   \<and> currentReview (m\<lparr>err := Some e\<rparr>) = currentReview m
   \<and> selectedIdx (m\<lparr>err := Some e\<rparr>) = selectedIdx m
   \<and> reviewScroll (m\<lparr>err := Some e\<rparr>) = reviewScroll m
   \<and> width (m\<lparr>err := Some e\<rparr>) = width m
   \<and> height (m\<lparr>err := Some e\<rparr>) = height m
   \<and> serverAddr (m\<lparr>err := Some e\<rparr>) = serverAddr m"
  by simp

text \<open>Claim C9. A review message is processed in one step of \<open>Update\<close> that yields the
  Review view holding exactly the delivered Review, with scroll offset 0; nothing else
  of the state changes.\<close>

theorem review_fetched_atomic:
  "\<exists>m'. Update m (reviewMsg r) = Inr (m', None)
     \<and> currentView m' = viewReview \<and> currentReview m' = r \<and> reviewScroll m' = 0
     \<and> m' = m\<lparr>currentReview := r, currentView := viewReview, reviewScroll := 0\<rparr>"
  by simp

section \<open>Scrolling the Review screen\<close>

lemma wrapInt_in_range: "- (2 ^ 63) \<le> x \<Longrightarrow> x < 2 ^ 63 \<Longrightarrow> wrapInt x = x"
proof -
  assume "- (2 ^ 63) \<le> x" and "x < 2 ^ 63"
  then have "0 \<le> x + 2 ^ 63" and "x + 2 ^ 63 < 2 ^ 64"
    by simp_all
  then have "(x + 2 ^ 63) mod 2 ^ 64 = x + 2 ^ 63"
    by (rule mod_pos_pos_trivial)
  then show ?thesis
    by (simp add: wrapInt_def)
qed

lemma keyEnter_scroll:
  "keyEnter m = Inr (m', c) \<Longrightarrow> reviewScroll m' = reviewScroll m \<or> reviewScroll m' = 0"
  by (auto simp: keyEnter_def split: if_splits sum.splits)

lemma updateKey_scroll_step:
  assumes "updateKey m k = Inr (m', c)"
    and "0 \<le> reviewScroll m" and "reviewScroll m < 2 ^ 63 - 1"
  shows "0 \<le> reviewScroll m' \<and> reviewScroll m' \<le> reviewScroll m + 1"
proof -
  have up: "0 \<le> reviewScroll (keyUp m) \<and> reviewScroll (keyUp m) \<le> reviewScroll m + 1"
    using assms(2) by (simp add: keyUp_def)
  have "wrapInt (reviewScroll m + 1) = reviewScroll m + 1"
    using assms(2,3) by (intro wrapInt_in_range) simp_all
  then have down: "0 \<le> reviewScroll (keyDown m)
      \<and> reviewScroll (keyDown m) \<le> reviewScroll m + 1"
    using assms(2) by (simp add: keyDown_def)
  have toQueue: "reviewScroll (backToQueue m) = 0"
    by (simp add: backToQueue_def)
  have esc: "0 \<le> reviewScroll (keyEsc m) \<and> reviewScroll (keyEsc m) \<le> reviewScroll m + 1"
    using assms(2) toQueue by (simp add: keyEsc_def)
  have enter: "keyEnter m = Inr (m', c) \<Longrightarrow>
      0 \<le> reviewScroll m' \<and> reviewScroll m' \<le> reviewScroll m + 1"
    using assms(2) by (auto dest: keyEnter_scroll)
  show ?thesis
    using assms up down toQueue esc enter
    unfolding updateKey_def by (auto split: if_splits)
qed

lemma Update_scroll_step:
  assumes "Update m e = Inr (m', c)"
    and "0 \<le> reviewScroll m" and "reviewScroll m < 2 ^ 63 - 1"
  shows "0 \<le> reviewScroll m' \<and> reviewScroll m' \<le> reviewScroll m + 1"
proof (cases e)
  case (KeyMsg k)
  then have "updateKey m k = Inr (m', c)"
    using assms(1) by simp
  then show ?thesis
    using assms(2,3) by (rule updateKey_scroll_step)
next
  case (jobsMsg js)
  then show ?thesis
    using assms by (auto simp: Let_def split: if_splits)
qed (use assms in auto)

lemma runUpdates_scroll:
  "runUpdates m0 msgs = Inr m \<Longrightarrow> 0 \<le> reviewScroll m0
     \<Longrightarrow> reviewScroll m0 + int (length msgs) < 2 ^ 63
     \<Longrightarrow> 0 \<le> reviewScroll m \<and> reviewScroll m \<le> reviewScroll m0 + int (length msgs)"
proof (induction msgs arbitrary: m0)
  case Nil
  then show ?case by simp
next
  case (Cons e es)
  then obtain m1 c where first: "Update m0 e = Inr (m1, c)" and rest: "runUpdates m1 es = Inr m"
    by (auto split: sum.splits)
  have "reviewScroll m0 < 2 ^ 63 - 1"
    using Cons.prems(3) by simp
  then have one: "0 \<le> reviewScroll m1 \<and> reviewScroll m1 \<le> reviewScroll m0 + 1"
    using Update_scroll_step [OF first Cons.prems(2)] by simp
  then have "reviewScroll m1 + int (length es) < 2 ^ 63"
    using Cons.prems(3) by simp
  then have "0 \<le> reviewScroll m \<and> reviewScroll m \<le> reviewScroll m1 + int (length es)"
    using Cons.IH [OF rest] one by simp
  then show ?case
    using one by simp
qed

lemma runUpdates_reachable: "reachable m0 \<Longrightarrow> runUpdates m0 msgs = Inr m \<Longrightarrow> reachable m"
proof (induction msgs arbitrary: m0)
  case Nil
  then show ?case by simp
next
  case (Cons e es)
  then obtain m1 c where first: "Update m0 e = Inr (m1, c)" and rest: "runUpdates m1 es = Inr m"
    by (auto split: sum.splits)
  have "reachable m1"
    using Cons.prems(1) first by (rule reachable.step)
  then show ?case
    using rest by (rule Cons.IH)
qed

lemma writeLines_slice:
  "0 \<le> a \<Longrightarrow> b \<le> int (length ls) \<Longrightarrow>
     writeLines ls [a..b - 1]
       = Inr (concat (map (\<lambda>l. l @ nl) (take (nat (b - a)) (drop (nat a) ls))))"
proof (induction "nat (b - a)" arbitrary: a)
  case 0
  then have "b - 1 < a"
    by simp
  then have "[a..b - 1] = []"
    by simp
  then show ?case
    using "0.hyps" by simp
next
  case (Suc k)
  then have less: "a < b"
    by simp
  then have range: "[a..b - 1] = a # [a + 1..b - 1]"
    by (simp add: upto_rec1)
  have here: "index ls a = Inr (ls ! nat a)"
    using Suc.prems less by (simp add: index_def)
  have k: "k = nat (b - (a + 1))"
    using Suc.hyps(2) by simp
  have below: "writeLines ls [a + 1..b - 1]
      = Inr (concat (map (\<lambda>l. l @ nl) (take k (drop (nat (a + 1)) ls))))"
    using Suc.hyps(1) [OF k] Suc.prems k by simp
  have "nat a < length ls"
    using Suc.prems less by simp
  then have "drop (nat a) ls = ls ! nat a # drop (Suc (nat a)) ls"
    by (simp add: Cons_nth_drop_Suc)
  moreover have "nat (a + 1) = Suc (nat a)"
    using Suc.prems(1) by simp
  moreover have "nat (b - a) = Suc k"
    using Suc.hyps(2) by simp
  ultimately have "take (nat (b - a)) (drop (nat a) ls)
      = ls ! nat a # take k (drop (nat (a + 1)) ls)"
    by simp
  then show ?case
    by (simp add: range here below)
qed

lemma renderReviewView_frame:
  assumes "currentReview m = Some r" and "0 \<le> reviewScroll m"
    and "lines = wrapText (Output r) (min (width m - 2) 100)" and "n = int (length lines)"
    and "startIdx = (if reviewScroll m \<ge> n then max 0 (n - 1) else reviewScroll m)"
    and "endIdx = min (startIdx + (height m - 5)) n"
  shows "0 \<le> startIdx \<and> startIdx \<le> max 0 (n - 1)"
    and "renderReviewView L m =
      Inr (reviewTitle L r @ nl
           @ concat (map (\<lambda>l. l @ nl) (take (nat (endIdx - startIdx)) (drop (nat startIdx) lines)))
           @ (if n > height m - 5
              then Render L statusStyle (reviewScrollInfo startIdx endIdx n) @ nl else [])
           @ Render L helpStyle ''up/down: scroll | esc/q: back'')"
proof -
  show bounds: "0 \<le> startIdx \<and> startIdx \<le> max 0 (n - 1)"
    using assms(2,5) by auto
  have "endIdx \<le> int (length lines)"
    using assms(4,6) by simp
  then have body: "writeLines lines [startIdx..endIdx - 1]
      = Inr (concat (map (\<lambda>l. l @ nl) (take (nat (endIdx - startIdx)) (drop (nat startIdx) lines))))"
    using bounds by (intro writeLines_slice) simp_all
  have start: "scrollStart (reviewScroll m) n = startIdx"
    using assms(5) by (simp add: scrollStart_def)
  have stop: "min (startIdx + (height m - 5)) n = endIdx"
    using assms(6) by simp
  show "renderReviewView L m =
      Inr (reviewTitle L r @ nl
           @ concat (map (\<lambda>l. l @ nl) (take (nat (endIdx - startIdx)) (drop (nat startIdx) lines)))
           @ (if n > height m - 5
              then Render L statusStyle (reviewScrollInfo startIdx endIdx n) @ nl else [])
           @ Render L helpStyle ''up/down: scroll | esc/q: back'')"
    unfolding renderReviewView_def Let_def
    by (simp only: assms(1) option.case assms(3) [symmetric] assms(4) [symmetric]
        start stop body sum.case)
qed

lemma runUpdates_overscrolled:
  "runUpdates (NewModel []) [reviewMsg (Some shortReview), KeyMsg ''down''] = Inr overscrolled"
proof -
  have "wrapInt 1 = 1"
    by (simp add: wrapInt_def)
  then show ?thesis
    by (simp add: updateKey_def keyDown_def overscrolled_def)
qed

lemma reachable_overscrolled: "reachable overscrolled"
  using reachable.start runUpdates_overscrolled by (rule runUpdates_reachable)

lemma wrapText_ok: "wrapText ''ok'' 78 = [''ok'']"
  by (simp add: wrapText_def wrapLine_def)

text \<open>Claim C1, as stated, fails: from the initial state, a fetched Review of one
  wrapped line followed by one press of down leaves the stored scroll offset at 1, above
  \<open>max 0 (totalWrappedLines - 1) = 0\<close>.\<close>

theorem scroll_offset_exceeds_bound:
  "reachable overscrolled \<and> currentView overscrolled = viewReview
   \<and> currentReview overscrolled = Some shortReview
   \<and> \<not> (reviewScroll overscrolled
          \<le> max 0 (int (length (wrapText (Output shortReview) (min (width overscrolled - 2) 100))) - 1))"
  using reachable_overscrolled
  by (simp add: overscrolled_def shortReview_def NewModel_def wrapText_ok)

text \<open>Claim C1, amended. Take any state the program reaches from its initial state by
  processing fewer than \<open>2 ^ 63 - 1\<close> messages. Its stored scroll offset is at least 0 and at
  most the number of messages processed; it is not bounded by the content, since down in
  the Review view adds one to it. The bound of the claim holds for the frame: with a
  Review held in the Review view, \<open>View\<close> shows the wrapped lines \<open>[start, end)\<close> of the
  held Review's output at the current width, where \<open>start\<close> is the stored offset, replaced
  by \<open>max 0 (totalWrappedLines - 1)\<close> when it is \<open>totalWrappedLines\<close> or more, so that
  \<open>0 \<le> start \<le> max 0 (totalWrappedLines - 1)\<close>, and \<open>end\<close> is \<open>start\<close> plus the viewport
  height, at most \<open>totalWrappedLines\<close>. With no Review held, \<open>View\<close> shows the Queue
  screen, whatever the offset.\<close>

theorem scroll_clamped_when_rendered:
  assumes "runUpdates (NewModel addr) msgs = Inr m" and "int (length msgs) < 2 ^ 63 - 1"
  shows "reachable m
     \<and> 0 \<le> reviewScroll m \<and> reviewScroll m \<le> int (length msgs)
     \<and> (currentView m = viewReview \<longrightarrow>
          Update m (KeyMsg ''down'') = Inr (m\<lparr>reviewScroll := reviewScroll m + 1\<rparr>, None))
     \<and> (currentReview m = None \<longrightarrow> View L m = renderQueueView L m)
     \<and> (currentView m = viewReview \<and> currentReview m = Some r
          \<and> lines = wrapText (Output r) (min (width m - 2) 100) \<and> n = int (length lines)
          \<and> startIdx = (if reviewScroll m \<ge> n then max 0 (n - 1) else reviewScroll m)
          \<and> endIdx = min (startIdx + (height m - 5)) n \<longrightarrow>
        0 \<le> startIdx \<and> startIdx \<le> max 0 (n - 1)
        \<and> View L m =
            Inr (reviewTitle L r @ nl
                 @ concat (map (\<lambda>l. l @ nl)
                     (take (nat (endIdx - startIdx)) (drop (nat startIdx) lines)))
                 @ (if n > height m - 5
                    then Render L statusStyle (reviewScrollInfo startIdx endIdx n) @ nl else [])
                 @ Render L helpStyle ''up/down: scroll | esc/q: back''))"
proof -
  have reach: "reachable m"
    using reachable.start assms(1) by (rule runUpdates_reachable)
  have "reviewScroll (NewModel addr) = 0"
    by (simp add: NewModel_def)
  then have stored: "0 \<le> reviewScroll m \<and> reviewScroll m \<le> int (length msgs)"
    using runUpdates_scroll [OF assms(1)] assms(2) by simp
  have "wrapInt (reviewScroll m + 1) = reviewScroll m + 1"
    using stored assms(2) by (intro wrapInt_in_range) simp_all
  then have down: "currentView m = viewReview \<longrightarrow>
      Update m (KeyMsg ''down'') = Inr (m\<lparr>reviewScroll := reviewScroll m + 1\<rparr>, None)"
    by (simp add: updateKey_def keyDown_def)
  have queue: "currentReview m = None \<longrightarrow> View L m = renderQueueView L m"
    by (simp add: View_def)
  have frame: "currentView m = viewReview \<and> currentReview m = Some r
          \<and> lines = wrapText (Output r) (min (width m - 2) 100) \<and> n = int (length lines)
          \<and> startIdx = (if reviewScroll m \<ge> n then max 0 (n - 1) else reviewScroll m)
          \<and> endIdx = min (startIdx + (height m - 5)) n \<longrightarrow>
        0 \<le> startIdx \<and> startIdx \<le> max 0 (n - 1)
        \<and> View L m =
            Inr (reviewTitle L r @ nl
                 @ concat (map (\<lambda>l. l @ nl)
                     (take (nat (endIdx - startIdx)) (drop (nat startIdx) lines)))
                 @ (if n > height m - 5
                    then Render L statusStyle (reviewScrollInfo startIdx endIdx n) @ nl else [])
                 @ Render L helpStyle ''up/down: scroll | esc/q: back'')"
  proof (intro impI, elim conjE)
    assume shown: "currentView m = viewReview" and held: "currentReview m = Some r"
      and l: "lines = wrapText (Output r) (min (width m - 2) 100)" and n: "n = int (length lines)"
      and s: "startIdx = (if reviewScroll m \<ge> n then max 0 (n - 1) else reviewScroll m)"
      and e: "endIdx = min (startIdx + (height m - 5)) n"
    have nonneg: "0 \<le> reviewScroll m"
      using stored by simp
    have "View L m = renderReviewView L m"
      using shown held by (simp add: View_def)
    then show "0 \<le> startIdx \<and> startIdx \<le> max 0 (n - 1)
        \<and> View L m =
            Inr (reviewTitle L r @ nl
                 @ concat (map (\<lambda>l. l @ nl)
                     (take (nat (endIdx - startIdx)) (drop (nat startIdx) lines)))
                 @ (if n > height m - 5
                    then Render L statusStyle (reviewScrollInfo startIdx endIdx n) @ nl else [])
                 @ Render L helpStyle ''up/down: scroll | esc/q: back'')"
      using renderReviewView_frame(1) [OF held nonneg l n s e]
        renderReviewView_frame(2) [OF held nonneg l n s e, of L] by simp
  qed
  show ?thesis
    using reach stored down queue frame by (intro conjI) simp_all
qed

theorem scroll_clamped_when_rendered_witness:
  "runUpdates (NewModel []) [reviewMsg (Some shortReview), KeyMsg ''down''] = Inr overscrolled
   \<and> int (length [reviewMsg (Some shortReview), KeyMsg ''down'']) < 2 ^ 63 - 1
   \<and> currentView overscrolled = viewReview \<and> currentReview overscrolled = Some shortReview
   \<and> reviewScroll overscrolled = 1
   \<and> wrapText (Output shortReview) (min (width overscrolled - 2) 100) = [''ok'']
   \<and> View plainLib overscrolled
        = Inr (''Review'' @ nl @ ''ok'' @ nl @ ''up/down: scroll | esc/q: back'')
   \<and> Update overscrolled (KeyMsg ''down'') = Inr (overscrolled\<lparr>reviewScroll := 2\<rparr>, None)"
proof -
  have few: "int (length [reviewMsg (Some shortReview), KeyMsg ''down'']) < 2 ^ 63 - 1"
    by simp
  have shown: "currentView overscrolled = viewReview"
    by (simp add: overscrolled_def)
  have held: "currentReview overscrolled = Some shortReview"
    by (simp add: overscrolled_def)
  have scroll: "reviewScroll overscrolled = 1"
    by (simp add: overscrolled_def)
  have tall: "height overscrolled = 24"
    by (simp add: overscrolled_def NewModel_def)
  have wrapped: "wrapText (Output shortReview) (min (width overscrolled - 2) 100) = [''ok'']"
    by (simp add: overscrolled_def shortReview_def NewModel_def wrapText_ok)
  have title: "reviewTitle plainLib shortReview = ''Review''"
    by (simp add: reviewTitle_def shortReview_def plainLib_def)
  have keys: "Render plainLib helpStyle ''up/down: scroll | esc/q: back''
      = ''up/down: scroll | esc/q: back''"
    by (simp add: plainLib_def)
  have "View plainLib overscrolled
      = Inr (reviewTitle plainLib shortReview @ nl
             @ concat (map (\<lambda>l. l @ nl) (take (nat (1 - 0)) (drop (nat 0) [''ok''])))
             @ (if 1 > height overscrolled - 5
                then Render plainLib statusStyle (reviewScrollInfo 0 1 1) @ nl else [])
             @ Render plainLib helpStyle ''up/down: scroll | esc/q: back'')"
    using scroll_clamped_when_rendered [OF runUpdates_overscrolled few,
        of plainLib shortReview "[''ok'']" 1 0 1]
    by (simp add: shown held scroll tall wrapped)
  moreover have "Update overscrolled (KeyMsg ''down'')
      = Inr (overscrolled\<lparr>reviewScroll := 2\<rparr>, None)"
    using scroll_clamped_when_rendered [OF runUpdates_overscrolled few] shown scroll by simp
  ultimately show ?thesis
    using runUpdates_overscrolled few shown held scroll wrapped
    by (simp add: title keys tall)
qed

section \<open>What the renderer reads\<close>

lemma err_update_fields:
  "jobs (m\<lparr>err := e\<rparr>) = jobs m" "status (m\<lparr>err := e\<rparr>) = status m"
  "selectedIdx (m\<lparr>err := e\<rparr>) = selectedIdx m"
  "currentView (m\<lparr>err := e\<rparr>) = currentView m"
  "currentReview (m\<lparr>err := e\<rparr>) = currentReview m"
  "reviewScroll (m\<lparr>err := e\<rparr>) = reviewScroll m"
  "width (m\<lparr>err := e\<rparr>) = width m" "height (m\<lparr>err := e\<rparr>) = height m"
  by simp_all

lemma renderRows_err: "renderRows L (m\<lparr>err := e\<rparr>) is = renderRows L m is"
  by (induction "is") (auto simp: Let_def split: sum.splits)

lemma queueStatusLine_err: "queueStatusLine (m\<lparr>err := e\<rparr>) = queueStatusLine m"
  by (simp add: queueStatusLine_def)

lemma renderQueueView_err: "renderQueueView L (m\<lparr>err := e\<rparr>) = renderQueueView L m"
  unfolding renderQueueView_def Let_def
  by (simp only: renderRows_err queueStatusLine_err err_update_fields
      cong: sum.case_cong if_cong)

lemma renderReviewView_err: "renderReviewView L (m\<lparr>err := e\<rparr>) = renderReviewView L m"
  unfolding renderReviewView_def Let_def
  by (simp only: err_update_fields cong: sum.case_cong option.case_cong if_cong)

text \<open>Claim C2. The rendered frame does not depend on the stored error: replacing the
  error field by any value leaves the result of \<open>View\<close>, of the Queue renderer and of
  the Review renderer unchanged.\<close>

theorem View_ignores_err:
  "View L (m\<lparr>err := e\<rparr>) = View L m
   \<and> renderQueueView L (m\<lparr>err := e\<rparr>) = renderQueueView L m
   \<and> renderReviewView L (m\<lparr>err := e\<rparr>) = renderReviewView L m"
  unfolding View_def
  by (simp only: renderQueueView_err renderReviewView_err err_update_fields simp_thms)

lemma renderRows_panic: "renderRows L m is = Inl p \<Longrightarrow> p = IndexOutOfRange"
  by (induction "is" arbitrary: p) (auto simp: index_def Let_def split: if_splits sum.splits)

lemma writeLines_panic: "writeLines ls is = Inl p \<Longrightarrow> p = IndexOutOfRange"
  by (induction "is" arbitrary: p) (auto simp: index_def split: if_splits sum.splits)

lemma renderQueueView_no_nil: "renderQueueView L m \<noteq> Inl NilDereference"
  by (auto simp: renderQueueView_def Let_def Repeat_def split: sum.splits if_splits
      dest: renderRows_panic)

lemma renderReviewView_no_nil:
  "currentReview m \<noteq> None \<Longrightarrow> renderReviewView L m \<noteq> Inl NilDereference"
  by (auto simp: renderReviewView_def Let_def split: sum.splits option.splits
      dest: writeLines_panic)

text \<open>Claim C10. When no Review is held, \<open>View\<close> renders the Queue screen, also
  in the Review view, where the Review renderer alone would dereference nil; \<open>View\<close>
  calls the Review renderer only with a Review held and never fails with a nil
  dereference.\<close>

theorem View_nil_review_renders_queue:
  "(currentReview m = None \<longrightarrow>
      View L m = renderQueueView L m \<and> renderReviewView L m = Inl NilDereference)
   \<and> View L m \<noteq> Inl NilDereference
   \<and> (View L m = renderQueueView L m \<or> (currentReview m \<noteq> None \<and> View L m = renderReviewView L m))"
  using renderQueueView_no_nil [of L m] renderReviewView_no_nil [of m L]
  by (auto simp: View_def renderReviewView_def)

theorem View_nil_review_renders_queue_witness:
  "currentView reviewWithoutPayload = viewReview \<and> currentReview reviewWithoutPayload = None
   \<and> View plainLib reviewWithoutPayload = renderQueueView plainLib reviewWithoutPayload
   \<and> View plainLib reviewWithoutPayload \<noteq> Inl NilDereference"
  using View_nil_review_renders_queue [of reviewWithoutPayload plainLib]
  by (auto simp: reviewWithoutPayload_def NewModel_def)

section \<open>The list windower\<close>

lemma visibleJobsOf_ge3: "3 \<le> visibleJobsOf h"
  by (simp add: visibleJobsOf_def Let_def)

lemma jobWindow_whole: "n \<le> v \<Longrightarrow> jobWindow n v s = (0, n)"
  by (simp add: jobWindow_def)

lemma jobWindow_clamped:
  assumes "v < n" and "0 < v"
  shows "fst (jobWindow n v s) = max 0 (min (s - v div 2) (n - v))"
    and "snd (jobWindow n v s) = fst (jobWindow n v s) + v"
  using assms by (simp_all add: jobWindow_def Let_def max_def min_def)

lemma clamped_bounds:
  fixes d v n s :: int
  assumes "v < n" and "0 < v"
  shows "0 \<le> max 0 (min (s - d) (n - v))" and "max 0 (min (s - d) (n - v)) + v \<le> n"
  using assms by (simp_all add: max_def min_def)

lemma clamped_holds_selection:
  fixes d v n s :: int
  assumes "v < n" and "0 \<le> d" and "d < v" and "0 \<le> s" and "s < n"
  shows "max 0 (min (s - d) (n - v)) \<le> s" and "s < max 0 (min (s - d) (n - v)) + v"
  using assms by (simp_all add: max_def min_def)

lemma jobWindow_holds_selection:
  assumes "0 < v" and "0 \<le> s" and "s < n"
  shows "fst (jobWindow n v s) \<le> s \<and> s < snd (jobWindow n v s)"
proof (cases "v < n")
  case True
  have "0 \<le> v div 2" and "v div 2 < v"
    using assms(1) by simp_all
  then show ?thesis
    using clamped_holds_selection [OF True _ _ assms(2,3), of "v div 2"]
    by (simp only: jobWindow_clamped [OF True assms(1)] simp_thms)
next
  case False
  then show ?thesis
    using assms by (simp add: jobWindow_whole)
qed

lemma jobWindow_in_list:
  assumes "0 < v" and "0 \<le> n"
  shows "0 \<le> fst (jobWindow n v s) \<and> snd (jobWindow n v s) \<le> n"
proof (cases "v < n")
  case True
  show ?thesis
    using clamped_bounds [OF True assms(1), of s "v div 2"]
    by (simp only: jobWindow_clamped [OF True assms(1)] simp_thms)
next
  case False
  then show ?thesis
    using assms by (simp add: jobWindow_whole)
qed

lemma renderRows_in_range:
  "\<forall>i \<in> set is. 0 \<le> i \<and> i < int (length (jobs m)) \<Longrightarrow> \<exists>rows. renderRows L m is = Inr rows"
proof (induction "is")
  case Nil
  then show ?case by simp
next
  case (Cons i rest)
  then obtain below where "renderRows L m rest = Inr below"
    by auto
  moreover have "index (jobs m) i = Inr (jobs m ! nat i)"
    using Cons.prems by (simp add: index_def)
  ultimately show ?case
    by (simp add: Let_def)
qed

lemma renderQueueView_footer:
  assumes "4 \<le> width m" and "visibleJobsOf (height m) < int (length (jobs m))"
  shows "\<exists>above. renderQueueView L m =
      Inr (above @ Render L statusStyle
             (queueScrollInfo (fst (jobWindow (int (length (jobs m))) (visibleJobsOf (height m)) (selectedIdx m)))
                (snd (jobWindow (int (length (jobs m))) (visibleJobsOf (height m)) (selectedIdx m)))
                (int (length (jobs m)))) @ nl
           @ Render L helpStyle ''up/down: navigate | enter: view review | q: quit'')"
proof -
  let ?n = "int (length (jobs m))"
  let ?v = "visibleJobsOf (height m)"
  let ?w = "jobWindow ?n ?v (selectedIdx m)"
  have v: "0 < ?v"
    using visibleJobsOf_ge3 [of "height m"] by simp
  have "0 \<le> fst ?w \<and> snd ?w \<le> ?n"
    using v by (intro jobWindow_in_list) simp_all
  then have "\<forall>i \<in> set [fst ?w..snd ?w - 1]. 0 \<le> i \<and> i < ?n"
    by auto
  then obtain rows where rows: "renderRows L m [fst ?w..snd ?w - 1] = Inr rows"
    using renderRows_in_range by blast
  have dashes: "Repeat ''-'' (min (width m - 4) 78)
      = Inr (concat (replicate (nat (min (width m - 4) 78)) ''-''))"
    using assms(1) by (simp add: Repeat_def)
  have nonempty: "length (jobs m) \<noteq> 0"
    using assms(2) v by auto
  define above where "above = Render L titleStyle ''RoboRev Queue'' @ nl
      @ Render L statusStyle (queueStatusLine m) @ nl @ nl
      @ Render L statusStyle (queueHeader L) @ nl
      @ ''  '' @ concat (replicate (nat (min (width m - 4) 78)) ''-'') @ nl @ rows"
  have "renderQueueView L m =
      Inr (above @ Render L statusStyle (queueScrollInfo (fst ?w) (snd ?w) ?n) @ nl
           @ Render L helpStyle ''up/down: navigate | enter: view review | q: quit'')"
    unfolding renderQueueView_def Let_def above_def
    using nonempty assms(2)
    by (simp only: rows dashes sum.case if_True if_False append_assoc simp_thms)
  then show ?thesis
    by (rule exI [of _ above])
qed

text \<open>Claim C6. The viewport capacity \<open>v\<close> is at least 3. With \<open>n \<le> v\<close> the window
  is the whole list \<open>[0, n)\<close>; with \<open>n > v\<close> it has length exactly \<open>v\<close>, starts at
  \<open>s - v div 2\<close> clamped into \<open>[0, n - v]\<close> and ends at \<open>start + v \<le> n\<close>; a selection
  \<open>0 \<le> s < n\<close> lies in \<open>[start, end)\<close>. When the list exceeds the capacity (and the
  terminal is at least 4 columns wide, so that the rule line can be drawn) the Queue
  frame ends with the footer of that window and the help line. For 100 jobs, capacity 10
  (terminal height 19) and selection 50 the window is \<open>[45, 55)\<close> and the footer reads
  \<open>[showing 46-55 of 100]\<close>.\<close>

theorem jobWindow_around_selection:
  assumes "v = visibleJobsOf h"
    and "startIdx = fst (jobWindow n v s)" and "endIdx = snd (jobWindow n v s)"
  shows "3 \<le> v
     \<and> (n \<le> v \<longrightarrow> startIdx = 0 \<and> endIdx = n)
     \<and> (v < n \<longrightarrow> endIdx - startIdx = v \<and> startIdx = max 0 (min (s - v div 2) (n - v))
           \<and> 0 \<le> startIdx \<and> endIdx = startIdx + v \<and> endIdx \<le> n)
     \<and> (0 \<le> s \<and> s < n \<longrightarrow> startIdx \<le> s \<and> s < endIdx)
     \<and> (4 \<le> width m \<and> visibleJobsOf (height m) < int (length (jobs m)) \<longrightarrow>
          (\<exists>above. renderQueueView L m =
             Inr (above @ Render L statusStyle
                    (queueScrollInfo
                       (fst (jobWindow (int (length (jobs m))) (visibleJobsOf (height m)) (selectedIdx m)))
                       (snd (jobWindow (int (length (jobs m))) (visibleJobsOf (height m)) (selectedIdx m)))
                       (int (length (jobs m)))) @ nl
                  @ Render L helpStyle ''up/down: navigate | enter: view review | q: quit'')))
     \<and> visibleJobsOf 19 = 10 \<and> jobWindow 100 10 50 = (45, 55)
     \<and> queueScrollInfo 45 55 100 = ''[showing 46-55 of 100]''"
proof -
  have v3: "3 \<le> v"
    using assms(1) visibleJobsOf_ge3 by simp
  then have v: "0 < v"
    by simp
  have whole: "n \<le> v \<longrightarrow> startIdx = 0 \<and> endIdx = n"
    using assms(2,3) by (simp add: jobWindow_whole)
  have part: "v < n \<longrightarrow> endIdx - startIdx = v \<and> startIdx = max 0 (min (s - v div 2) (n - v))
           \<and> 0 \<le> startIdx \<and> endIdx = startIdx + v \<and> endIdx \<le> n"
  proof
    assume less: "v < n"
    have a: "startIdx = max 0 (min (s - v div 2) (n - v))"
      using assms(2) jobWindow_clamped(1) [OF less v] by simp
    have b: "endIdx = startIdx + v"
      using assms(2,3) jobWindow_clamped(2) [OF less v] by simp
    have c: "0 \<le> startIdx" and d: "startIdx + v \<le> n"
      using clamped_bounds [OF less v, of s "v div 2"] a by simp_all
    show "endIdx - startIdx = v \<and> startIdx = max 0 (min (s - v div 2) (n - v))
           \<and> 0 \<le> startIdx \<and> endIdx = startIdx + v \<and> endIdx \<le> n"
      using a b c d by (intro conjI) simp_all
  qed
  have sel: "0 \<le> s \<and> s < n \<longrightarrow> startIdx \<le> s \<and> s < endIdx"
    using jobWindow_holds_selection [OF v, of s n] assms(2,3) by simp
  have footer: "4 \<le> width m \<and> visibleJobsOf (height m) < int (length (jobs m)) \<longrightarrow>
          (\<exists>above. renderQueueView L m =
             Inr (above @ Render L statusStyle
                    (queueScrollInfo
                       (fst (jobWindow (int (length (jobs m))) (visibleJobsOf (height m)) (selectedIdx m)))
                       (snd (jobWindow (int (length (jobs m))) (visibleJobsOf (height m)) (selectedIdx m)))
                       (int (length (jobs m)))) @ nl
                  @ Render L helpStyle ''up/down: navigate | enter: view review | q: quit''))"
    using renderQueueView_footer [of m L] by (intro impI) (elim conjE)
  have nineteen: "visibleJobsOf 19 = 10"
    by (simp add: visibleJobsOf_def)
  have window: "jobWindow 100 10 50 = (45, 55)"
    by (simp add: jobWindow_def)
  have label: "queueScrollInfo 45 55 100 = ''[showing 46-55 of 100]''"
    by code_simp
  show ?thesis
    by (intro conjI v3 whole part sel footer nineteen window label)
qed

theorem jobWindow_around_selection_witness:
  "visibleJobsOf (height fourJobs) = 3
   \<and> jobWindow 4 3 2 = (1, 4)
   \<and> int (length (jobs fourJobs)) = 4 \<and> selectedIdx fourJobs = 2
   \<and> 4 \<le> width fourJobs \<and> (3::int) < 4 \<and> (0::int) \<le> 2 \<and> (2::int) < 4
   \<and> (\<exists>above. renderQueueView plainLib fourJobs =
         Inr (above @ ''[showing 2-4 of 4]'' @ nl
                @ ''up/down: navigate | enter: view review | q: quit''))"
proof -
  have v: "visibleJobsOf (height fourJobs) = 3"
    by (simp add: fourJobs_def visibleJobsOf_def)
  have w: "jobWindow 4 3 2 = (1, 4)"
    by (simp add: jobWindow_def)
  have info: "queueScrollInfo 1 4 4 = ''[showing 2-4 of 4]''"
    by code_simp
  have wd: "4 \<le> width fourJobs"
    by (simp add: fourJobs_def NewModel_def)
  have n: "int (length (jobs fourJobs)) = 4"
    by (simp add: fourJobs_def)
  have sel: "selectedIdx fourJobs = 2"
    by (simp add: fourJobs_def)
  have r: "Render plainLib = (\<lambda>s x. x)"
    by (simp add: plainLib_def)
  have "\<exists>above. renderQueueView plainLib fourJobs =
         Inr (above @ Render plainLib statusStyle (queueScrollInfo 1 4 4) @ nl
                @ Render plainLib helpStyle ''up/down: navigate | enter: view review | q: quit'')"
    using jobWindow_around_selection [of 3 "height fourJobs" 1 4 2 4 fourJobs plainLib]
    by (simp only: v w n sel wd fst_conv snd_conv simp_thms)
  then show ?thesis
    by (simp only: v w n sel wd info r simp_thms) simp
qed

section \<open>Facts about the loops of the text wrapper\<close>


lemma splitOn_no_sep: "sep \<notin> set s \<Longrightarrow> splitOn sep s = [s]"
  by (induction s) (auto simp: Let_def)



lemma TrimLeft_no_leading_space: "TrimLeft s \<noteq> [] \<Longrightarrow> hd (TrimLeft s) \<noteq> CHR '' ''"
  unfolding TrimLeft_def using hd_dropWhile [of "\<lambda>c. c = CHR '' ''" s] by simp

lemma TrimLeft_set: "set (TrimLeft s) \<subseteq> set s"
  unfolding TrimLeft_def by (auto dest: set_dropWhileD)


lemma findBreak_pos: "0 < w \<Longrightarrow> i \<le> w \<Longrightarrow> 0 < findBreak line w i"
proof (induction line w i rule: findBreak.induct)
  case (1 line w i)
  have half: "0 \<le> w div 2"
    using "1.prems" by simp
  show ?case
  proof (cases "i > w div 2")
    case True
    then show ?thesis
      using "1.IH" "1.prems" half by (subst findBreak.simps) auto
  next
    case False
    then show ?thesis
      using "1.prems" by (subst findBreak.simps) simp
  qed
qed

lemma findBreak_none:
  "\<not> (\<exists>j. w div 2 < j \<and> j \<le> i \<and> j < int (length line) \<and> line ! nat j = CHR '' '')
     \<Longrightarrow> findBreak line w i = w"
proof (induction line w i rule: findBreak.induct)
  case (1 line w i)
  show ?case
  proof (cases "i > w div 2")
    case True
    then have here: "\<not> (i < int (length line) \<and> line ! nat i = CHR '' '')"
      using "1.prems" by auto
    have "\<not> (\<exists>j. w div 2 < j \<and> j \<le> i - 1 \<and> j < int (length line) \<and> line ! nat j = CHR '' '')"
      using "1.prems" by auto
    then have "findBreak line w (i - 1) = w"
      using "1.IH" True here by blast
    then show ?thesis
      using True here by (subst findBreak.simps) auto
  next
    case False
    then show ?thesis
      by (subst findBreak.simps) simp
  qed
qed

lemma findBreak_found:
  "\<exists>j. w div 2 < j \<and> j \<le> i \<and> j < int (length line) \<and> line ! nat j = CHR '' ''
     \<Longrightarrow> w div 2 < findBreak line w i \<and> findBreak line w i \<le> i
         \<and> findBreak line w i < int (length line)
         \<and> line ! nat (findBreak line w i) = CHR '' ''
         \<and> (\<forall>j. findBreak line w i < j \<and> j \<le> i \<longrightarrow>
               \<not> (j < int (length line) \<and> line ! nat j = CHR '' ''))"
proof (induction line w i rule: findBreak.induct)
  case (1 line w i)
  from "1.prems" have above: "i > w div 2"
    by auto
  show ?case
  proof (cases "i < int (length line) \<and> line ! nat i = CHR '' ''")
    case True
    then have "findBreak line w i = i"
      using above by (subst findBreak.simps) simp
    then show ?thesis
      using True above by auto
  next
    case False
    then have unfold: "findBreak line w i = findBreak line w (i - 1)"
      using above by (subst findBreak.simps) auto
    obtain j where j: "w div 2 < j" "j \<le> i" "j < int (length line)" "line ! nat j = CHR '' ''"
      using "1.prems" by blast
    then have "j \<noteq> i"
      using False by auto
    then have "\<exists>j. w div 2 < j \<and> j \<le> i - 1 \<and> j < int (length line) \<and> line ! nat j = CHR '' ''"
      using j by (intro exI [of _ j]) simp
    then have ih: "w div 2 < findBreak line w (i - 1) \<and> findBreak line w (i - 1) \<le> i - 1
         \<and> findBreak line w (i - 1) < int (length line)
         \<and> line ! nat (findBreak line w (i - 1)) = CHR '' ''
         \<and> (\<forall>j. findBreak line w (i - 1) < j \<and> j \<le> i - 1 \<longrightarrow>
               \<not> (j < int (length line) \<and> line ! nat j = CHR '' ''))"
      using "1.IH" above False by blast
    have "\<forall>j. findBreak line w (i - 1) < j \<and> j \<le> i \<longrightarrow>
               \<not> (j < int (length line) \<and> line ! nat j = CHR '' '')"
    proof (intro allI impI)
      fix k
      assume k: "findBreak line w (i - 1) < k \<and> k \<le> i"
      show "\<not> (k < int (length line) \<and> line ! nat k = CHR '' '')"
      proof (cases "k = i")
        case True
        then show ?thesis using False by simp
      next
        case False
        then have "k \<le> i - 1" using k by simp
        then show ?thesis using ih k by blast
      qed
    qed
    then show ?thesis
      using ih unfold by simp
  qed
qed



lemma wrapLoop_long:
  "0 < w \<Longrightarrow> w < int (length line) \<Longrightarrow>
     wrapLoop line w = take (nat (findBreak line w w)) line
       # wrapLoop (TrimLeft (drop (nat (findBreak line w w)) line)) w"
  by (subst wrapLoop.simps) (simp add: Let_def)

lemma wrapLoop_short:
  "\<not> (w < int (length line) \<and> 0 < w) \<Longrightarrow>
     wrapLoop line w = (if length line > 0 then [line] else [])"
  by (subst wrapLoop.simps) auto

lemma wrapLoop_eq_wrapLine: "line \<noteq> [] \<Longrightarrow> 0 < w \<Longrightarrow> wrapLoop line w = wrapLine line w"
  by (cases "w < int (length line)") (simp_all add: wrapLine_def wrapLoop_short)


lemma wrapLoop_no_leading_space:
  "0 < w \<Longrightarrow> line = [] \<or> hd line \<noteq> CHR '' '' \<Longrightarrow>
     \<forall>l \<in> set (wrapLoop line w). l \<noteq> [] \<and> hd l \<noteq> CHR '' ''"
proof (induction line w rule: wrapLoop.induct)
  case (1 line w)
  show ?case
  proof (cases "w < int (length line)")
    case True
    define b where "b = findBreak line w w"
    define cont where "cont = TrimLeft (drop (nat b) line)"
    have unfold: "wrapLoop line w = take (nat b) line # wrapLoop cont w"
      using wrapLoop_long [OF "1.prems"(1) True] by (simp add: b_def cont_def)
    have b: "0 < b"
      using findBreak_pos [OF "1.prems"(1), of w line] by (simp add: b_def)
    have line: "line \<noteq> []" "hd line \<noteq> CHR '' ''"
      using True "1.prems" by auto
    have first: "take (nat b) line \<noteq> [] \<and> hd (take (nat b) line) \<noteq> CHR '' ''"
      using b line by (cases line) (auto simp: take_Cons')
    have long: "w < int (length line) \<and> 0 < w"
      using True "1.prems"(1) by simp
    have "cont = [] \<or> hd cont \<noteq> CHR '' ''"
      using TrimLeft_no_leading_space cont_def by blast
    then have "\<forall>l \<in> set (wrapLoop cont w). l \<noteq> [] \<and> hd l \<noteq> CHR '' ''"
      using "1.IH" [OF long b_def "1.prems"(1)] unfolding cont_def by blast
    then show ?thesis
      using first unfold line by simp
  next
    case False
    then show ?thesis
      using "1.prems" by (auto simp: wrapLoop_short)
  qed
qed

section \<open>The text wrapper keeps the content\<close>













section \<open>Where the text wrapper breaks a line\<close>

text \<open>Claim C7. For a positive width \<open>w\<close> and a line longer than \<open>w\<close>, the first
  display line is the first \<open>b\<close> characters of the line, where \<open>b\<close> is the greatest
  index in \<open>(w div 2, w]\<close> holding a space when there is one, and \<open>w\<close> itself (a hard
  break) when there is none; the wrapper goes on with the rest of the line after its
  leading spaces are removed, so no later display line of that input line is empty or
  begins with a space. A width of 0 or less is replaced by 100.\<close>

theorem wrapText_break_rule:
  assumes "0 < w" and "w < int (length line)" and "CHR 10 \<notin> set line"
  shows "(\<exists>b. (if \<exists>j. w div 2 < j \<and> j \<le> w \<and> line ! nat j = CHR '' ''
              then w div 2 < b \<and> b \<le> w \<and> line ! nat b = CHR '' ''
                   \<and> (\<forall>j. b < j \<and> j \<le> w \<longrightarrow> line ! nat j \<noteq> CHR '' '')
              else b = w)
           \<and> wrapText line w = take (nat b) line
               # (if TrimLeft (drop (nat b) line) = [] then []
                  else wrapText (TrimLeft (drop (nat b) line)) w))
     \<and> (\<forall>l \<in> set (tl (wrapText line w)). l \<noteq> [] \<and> hd l \<noteq> CHR '' '')
     \<and> (w0 \<le> 0 \<longrightarrow> wrapText text w0 = wrapText text 100)"
proof -
  define b where "b = findBreak line w w"
  define cont where "cont = TrimLeft (drop (nat b) line)"
  have inside: "\<And>j. j \<le> w \<Longrightarrow> j < int (length line)"
    using assms(2) by simp
  have rule: "if \<exists>j. w div 2 < j \<and> j \<le> w \<and> line ! nat j = CHR '' ''
      then w div 2 < b \<and> b \<le> w \<and> line ! nat b = CHR '' ''
           \<and> (\<forall>j. b < j \<and> j \<le> w \<longrightarrow> line ! nat j \<noteq> CHR '' '')
      else b = w"
  proof (cases "\<exists>j. w div 2 < j \<and> j \<le> w \<and> line ! nat j = CHR '' ''")
    case True
    then have "\<exists>j. w div 2 < j \<and> j \<le> w \<and> j < int (length line) \<and> line ! nat j = CHR '' ''"
      using inside by blast
    then show ?thesis
      using findBreak_found [of w w line] True inside unfolding b_def by auto
  next
    case False
    then have none: "findBreak line w w = w"
      by (intro findBreak_none) blast
    show ?thesis
      unfolding b_def by (simp only: False if_False none)
  qed
  have whole: "wrapText line w = wrapLoop line w"
    using assms by (simp add: wrapText_def wrapLine_def splitOn_no_sep)
  have step: "wrapLoop line w = take (nat b) line # wrapLoop cont w"
    using wrapLoop_long [OF assms(1,2)] by (simp add: b_def cont_def)
  have "CHR 10 \<notin> set cont"
    using assms(3) TrimLeft_set [of "drop (nat b) line"] set_drop_subset [of "nat b" line]
    unfolding cont_def by blast
  then have "wrapText cont w = wrapLine cont w"
    using assms(1) by (simp add: wrapText_def splitOn_no_sep)
  then have rest: "wrapLoop cont w = (if cont = [] then [] else wrapText cont w)"
    using assms(1) by (simp add: wrapLoop_eq_wrapLine wrapLoop_short)
  have shape: "wrapText line w = take (nat b) line
      # (if TrimLeft (drop (nat b) line) = [] then []
         else wrapText (TrimLeft (drop (nat b) line)) w)"
    using whole step rest by (simp add: cont_def)
  have "cont = [] \<or> hd cont \<noteq> CHR '' ''"
    using TrimLeft_no_leading_space cont_def by blast
  then have "\<forall>l \<in> set (wrapLoop cont w). l \<noteq> [] \<and> hd l \<noteq> CHR '' ''"
    by (rule wrapLoop_no_leading_space [OF assms(1)])
  then have continuation: "\<forall>l \<in> set (tl (wrapText line w)). l \<noteq> [] \<and> hd l \<noteq> CHR '' ''"
    using whole step by simp
  have default: "w0 \<le> 0 \<longrightarrow> wrapText text w0 = wrapText text 100"
    by (simp add: wrapText_def)
  show ?thesis
    using rule shape continuation default by blast
qed

lemma wrapText_hello: "wrapText ''hello world'' 8 = [''hello'', ''world'']"
  by code_simp

lemma wrapText_hard: "wrapText ''abcdefghij'' 3 = [''abc'', ''def'', ''ghi'', ''j'']"
  by code_simp

lemma wrapText_default: "wrapText ''hello world'' 0 = [''hello world'']"
  by code_simp

theorem wrapText_break_rule_witness:
  "(0::int) < 8 \<and> 8 < int (length ''hello world'') \<and> CHR 10 \<notin> set ''hello world''
   \<and> wrapText ''hello world'' 8 = [''hello'', ''world'']
   \<and> wrapText ''abcdefghij'' 3 = [''abc'', ''def'', ''ghi'', ''j'']
   \<and> tl (wrapText ''hello world'' 8) = [''world'']
   \<and> (0::int) \<le> 0 \<and> wrapText ''hello world'' 0 = wrapText ''hello world'' 100"
proof -
  have "(0::int) < 8" and "8 < int (length ''hello world'')" and "CHR 10 \<notin> set ''hello world''"
    by simp_all
  then show ?thesis
    using wrapText_break_rule [of 8 "''hello world''" 0 "''hello world''"]
      wrapText_hello wrapText_hard
    by simp
qed

end
